theory Spec2Isabelle
  imports Complex_Main "HOL-Library.Word"
begin

section \<open>The source-map consumer of go-sourcemap (consumer.go)\<close>

text \<open>
  A shallow embedding of \<^verbatim>\<open>vendor/github.com/go-sourcemap/sourcemap/consumer.go\<close>.
  Go's \<^verbatim>\<open>int\<close> is modelled as a 64-bit word read as two's complement: \<open>+\<close> and \<open>-\<close>
  wrap around, comparisons are the signed ones (\<open><s\<close>, \<open>\<le>s\<close>). Slice lengths and the
  indices of \<^verbatim>\<open>sort.Search\<close> are natural numbers. A run-time panic of the Go program
  (nil pointer dereference, index out of range) is a value of its own, distinct from a
  returned error.
\<close>

subsection \<open>Data model\<close>

type_synonym go_int = "64 word"

text \<open>A \<^verbatim>\<open>float64\<close> is kept as its IEEE-754 bit pattern; it is only handed on to
  \<^verbatim>\<open>strconv.FormatFloat\<close>.\<close>

type_synonym float64 = "64 word"

text \<open>What \<^verbatim>\<open>encoding/json\<close> stores in an \<^verbatim>\<open>interface{}\<close>.\<close>

datatype json_value =
    JString string
  | JFloat64 float64
  | JBool bool
  | JNull
  | JArray "json_value list"
  | JObject "(string \<times> json_value) list"

text \<open>The fields of \<^verbatim>\<open>net/url.URL\<close>.\<close>

record url =
  Scheme :: string
  Opaque :: string
  Host :: string
  Path :: string
  RawQuery :: string
  Fragment :: string

text \<open>
  Modelled from the spec: the struct \<^verbatim>\<open>mapping\<close> is declared in mappings.go, which is not
  among the sources. Its fields are the ones consumer.go reads; the spec's MappingRecord
  lists the same six, with a negative index as the "absent" sentinel
  (consumer.go tests \<^verbatim>\<open>sourcesInd >= 0\<close> and \<^verbatim>\<open>namesInd >= 0\<close>).
\<close>

record mapping =
  genLine :: go_int
  genColumn :: go_int
  sourcesInd :: go_int
  sourceLine :: go_int
  sourceColumn :: go_int
  namesInd :: go_int

text \<open>\<^verbatim>\<open>type sourceMap struct\<close>; the last two fields are unexported, so
  \<^verbatim>\<open>json.Unmarshal\<close> leaves them at their zero values.\<close>

record sourceMap =
  Version :: go_int
  File :: string
  SourceRoot :: string
  Sources :: "string list"
  Names :: "json_value list"
  Mappings :: string
  sourceRootURL :: "url option"
  mappings :: "mapping list"

record offset =
  Line :: go_int
  Column :: go_int

text \<open>\<^verbatim>\<open>type section struct\<close>; \<open>Map\<close> is a pointer, \<open>None\<close> is \<^verbatim>\<open>nil\<close>.\<close>

record section_rec =
  Offset :: offset
  Map :: "sourceMap option"

text \<open>\<^verbatim>\<open>type v3 struct\<close>: the embedded \<^verbatim>\<open>sourceMap\<close> and the sections.\<close>

record v3 =
  embedded :: sourceMap
  Sections :: "section_rec list"

record Consumer =
  file' :: string
  sections :: "section_rec list"

datatype error =
    MalformedDocument string
  | UnsupportedVersion go_int
  | InvalidURL string
  | MalformedMappings string

datatype panic = NilPointerDereference | IndexOutOfRange

datatype 'a result = Ok 'a | Err error | Panic panic

text \<open>The five results of \<^verbatim>\<open>Source\<close>: source, name, line, column, ok.\<close>

type_synonym lookup = "string \<times> string \<times> go_int \<times> go_int \<times> bool"

definition not_found :: lookup where
  "not_found = ('''', '''', 0, 0, False)"

text \<open>
  The functions consumer.go calls and that are not part of it: the Go standard library
  (\<^verbatim>\<open>json.Unmarshal\<close> into a \<^verbatim>\<open>v3\<close>, \<^verbatim>\<open>url.Parse\<close>, \<^verbatim>\<open>URL.String\<close>, \<^verbatim>\<open>path.Dir\<close>,
  \<^verbatim>\<open>path.Join\<close>, \<^verbatim>\<open>strconv.FormatFloat\<close>, \<^verbatim>\<open>fmt.Sprint\<close>) and
  \<^verbatim>\<open>parseMappings\<close> of mappings.go. They are parameters of the model; a failing call
  returns \<open>Inl\<close> with its message.
\<close>

record env =
  json_Unmarshal :: "string \<Rightarrow> string + v3"
  url_Parse :: "string \<Rightarrow> string + url"
  url_String :: "url \<Rightarrow> string"
  path_Dir :: "string \<Rightarrow> string"
  path_Join :: "string \<Rightarrow> string \<Rightarrow> string"
  parseMappings :: "string \<Rightarrow> string + mapping list"
  strconv_FormatFloat :: "float64 \<Rightarrow> char \<Rightarrow> int \<Rightarrow> int \<Rightarrow> string"
  fmt_Sprint :: "json_value \<Rightarrow> string"

text \<open>\<^verbatim>\<open>URL.IsAbs\<close>: the scheme is not empty. \<^verbatim>\<open>path.IsAbs\<close>: the path starts with a slash.\<close>

definition IsAbs :: "url \<Rightarrow> bool" where
  "IsAbs u = (Scheme u \<noteq> '''')"

definition path_IsAbs :: "string \<Rightarrow> bool" where
  "path_IsAbs p = (case p of [] \<Rightarrow> False | c # _ \<Rightarrow> c = CHR ''/'')"

subsection \<open>checkVersion\<close>

definition checkVersion :: "go_int \<Rightarrow> error option" where
  "checkVersion version =
     (if version = 3 \<or> version = 0 then None else Some (UnsupportedVersion version))"

subsection \<open>sourceMap.parse\<close>

text \<open>Lines 34 to 51: the source root. \<open>Inl\<close> is the error of \<^verbatim>\<open>url.Parse\<close>.\<close>

definition parse_root :: "env \<Rightarrow> sourceMap \<Rightarrow> string \<Rightarrow> error + sourceMap" where
  "parse_root e m mapURL =
     (if SourceRoot m \<noteq> '''' then
        (case url_Parse e (SourceRoot m) of
           Inl err \<Rightarrow> Inl (InvalidURL err)
         | Inr u \<Rightarrow> Inr (if IsAbs u then m\<lparr>sourceRootURL := Some u\<rparr> else m))
      else if mapURL \<noteq> '''' then
        (case url_Parse e mapURL of
           Inl err \<Rightarrow> Inl (InvalidURL err)
         | Inr u \<Rightarrow>
             Inr (if IsAbs u
                  then m\<lparr>sourceRootURL := Some (u\<lparr>Path := path_Dir e (Path u)\<rparr>)\<rparr>
                  else m))
      else Inr m)"

definition parse :: "env \<Rightarrow> sourceMap \<Rightarrow> string \<Rightarrow> error + sourceMap" where
  "parse e m mapURL =
     (case checkVersion (Version m) of
        Some err \<Rightarrow> Inl err
      | None \<Rightarrow>
          (case parse_root e m mapURL of
             Inl err \<Rightarrow> Inl err
           | Inr m1 \<Rightarrow>
               (case parseMappings e (Mappings m1) of
                  Inl err \<Rightarrow> Inl (MalformedMappings err)
                | Inr ms \<Rightarrow> Inr (m1\<lparr>mappings := ms, Mappings := ''''\<rparr>))))"

subsection \<open>sourceMap.absSource\<close>

text \<open>Line 70: \<^verbatim>\<open>url.Parse\<close> succeeds and the URL has a scheme.\<close>

definition is_abs_url :: "env \<Rightarrow> string \<Rightarrow> bool" where
  "is_abs_url e s = (case url_Parse e s of Inl err \<Rightarrow> False | Inr u \<Rightarrow> IsAbs u)"

definition absSource :: "env \<Rightarrow> sourceMap \<Rightarrow> string \<Rightarrow> string" where
  "absSource e m source =
     (if path_IsAbs source then source
      else if is_abs_url e source then source
      else (case sourceRootURL m of
              Some base \<Rightarrow> url_String e (base\<lparr>Path := path_Join e (Path base) source\<rparr>)
            | None \<Rightarrow>
                if SourceRoot m \<noteq> '''' then path_Join e (SourceRoot m) source
                else source))"

subsection \<open>sort.Search\<close>

function Search_loop :: "(nat \<Rightarrow> bool) \<Rightarrow> nat \<Rightarrow> nat \<Rightarrow> nat" where
  "Search_loop f i j =
     (if i < j then
        (let h = (i + j) div 2
         in if \<not> f h then Search_loop f (h + 1) j else Search_loop f i h)
      else i)"
  by pat_completeness auto
termination
  by (relation "measure (\<lambda>(f, i, j). j - i)") auto

declare Search_loop.simps [simp del]

definition Search :: "nat \<Rightarrow> (nat \<Rightarrow> bool) \<Rightarrow> nat" where
  "Search n f = Search_loop f 0 n"

subsection \<open>Consumer.source\<close>

text \<open>Lines 181 to 188: the type switch on a names entry.\<close>

definition render :: "env \<Rightarrow> json_value \<Rightarrow> string" where
  "render e v =
     (case v of
        JString s \<Rightarrow> s
      | JFloat64 x \<Rightarrow> strconv_FormatFloat e x CHR ''f'' (- 1) 64
      | _ \<Rightarrow> fmt_Sprint e v)"

text \<open>Indexing a slice with an \<^verbatim>\<open>int\<close> that is known to be non-negative.\<close>

definition in_range :: "go_int \<Rightarrow> 'a list \<Rightarrow> bool" where
  "in_range i xs = (nat (sint i) < length xs)"

definition slice_at :: "'a list \<Rightarrow> go_int \<Rightarrow> 'a" where
  "slice_at xs i = xs ! nat (sint i)"

text \<open>Lines 176 to 193: the results read off the selected record. Both index
  expressions panic when the index is not below the length.\<close>

definition resolve :: "env \<Rightarrow> sourceMap \<Rightarrow> mapping \<Rightarrow> lookup result" where
  "resolve e m match =
     (if 0 \<le>s sourcesInd match \<and> \<not> in_range (sourcesInd match) (Sources m)
      then Panic IndexOutOfRange
      else if 0 \<le>s namesInd match \<and> \<not> in_range (namesInd match) (Names m)
      then Panic IndexOutOfRange
      else Ok (if 0 \<le>s sourcesInd match
               then absSource e m (slice_at (Sources m) (sourcesInd match)) else '''',
               if 0 \<le>s namesInd match
               then render e (slice_at (Names m) (namesInd match)) else '''',
               sourceLine match, sourceColumn match, True))"

text \<open>Lines 153 to 159: the predicate handed to \<^verbatim>\<open>sort.Search\<close>.\<close>

definition search_pred :: "mapping list \<Rightarrow> go_int \<Rightarrow> go_int \<Rightarrow> nat \<Rightarrow> bool" where
  "search_pred ms qLine qColumn i =
     (let mp = ms ! i
      in if genLine mp = qLine then qColumn \<le>s genColumn mp else qLine \<le>s genLine mp)"

text \<open>Lines 153 to 174: the index of the record \<^verbatim>\<open>match\<close> ends up pointing to, or
  \<open>None\<close> where the function returns early.\<close>

definition match_index :: "mapping list \<Rightarrow> go_int \<Rightarrow> go_int \<Rightarrow> nat option" where
  "match_index ms qLine qColumn =
     (let i = Search (length ms) (search_pred ms qLine qColumn)
      in if i = length ms then None
         else if qLine <s genLine (ms ! i) \<or> qColumn <s genColumn (ms ! i)
         then (if i = 0 then None else Some (i - 1))
         else Some i)"

definition source :: "env \<Rightarrow> sourceMap \<Rightarrow> go_int \<Rightarrow> go_int \<Rightarrow> lookup result" where
  "source e m qLine qColumn =
     (case match_index (mappings m) qLine qColumn of
        None \<Rightarrow> Ok not_found
      | Some k \<Rightarrow> resolve e m (mappings m ! k))"

subsection \<open>Consumer.Source\<close>

definition selects :: "section_rec \<Rightarrow> go_int \<Rightarrow> go_int \<Rightarrow> bool" where
  "selects s qLine qColumn =
     (Line (Offset s) <s qLine \<or>
      (Line (Offset s) + 1 = qLine \<and> Column (Offset s) \<le>s qColumn))"

fun Source_loop :: "env \<Rightarrow> section_rec list \<Rightarrow> go_int \<Rightarrow> go_int \<Rightarrow> lookup result" where
  "Source_loop e [] qLine qColumn = Ok not_found"
| "Source_loop e (s # ss) qLine qColumn =
     (if Line (Offset s) <s qLine \<or>
         (Line (Offset s) + 1 = qLine \<and> Column (Offset s) \<le>s qColumn)
      then (case Map s of
              None \<Rightarrow> Panic NilPointerDereference
            | Some m \<Rightarrow> source e m (qLine - Line (Offset s)) (qColumn - Column (Offset s)))
      else Source_loop e ss qLine qColumn)"

definition Source :: "env \<Rightarrow> Consumer \<Rightarrow> go_int \<Rightarrow> go_int \<Rightarrow> lookup result" where
  "Source e c qLine qColumn = Source_loop e (sections c) qLine qColumn"

subsection \<open>reverse and Parse\<close>

function reverse_loop :: "nat \<Rightarrow> 'a list \<Rightarrow> 'a list" where
  "reverse_loop i ss =
     (if i < length ss div 2
      then reverse_loop (i + 1)
             (ss[i := ss ! (length ss - 1 - i), length ss - 1 - i := ss ! i])
      else ss)"
  by pat_completeness auto
termination
  by (relation "measure (\<lambda>(i, ss). length ss div 2 - i)") auto

declare reverse_loop.simps [simp del]

definition reverse :: "'a list \<Rightarrow> 'a list" where
  "reverse ss = reverse_loop 0 ss"

text \<open>Lines 117 to 122: every section's map is parsed in document order, through its
  pointer; a \<^verbatim>\<open>nil\<close> pointer is dereferenced by the first statement of
  \<^verbatim>\<open>sourceMap.parse\<close>.\<close>

fun parse_sections :: "env \<Rightarrow> string \<Rightarrow> section_rec list \<Rightarrow> section_rec list result" where
  "parse_sections e mapURL [] = Ok []"
| "parse_sections e mapURL (s # ss) =
     (case Map s of
        None \<Rightarrow> Panic NilPointerDereference
      | Some m \<Rightarrow>
          (case parse e m mapURL of
             Inl err \<Rightarrow> Err err
           | Inr m' \<Rightarrow>
               (case parse_sections e mapURL ss of
                  Ok ss' \<Rightarrow> Ok (s\<lparr>Map := Some m'\<rparr> # ss')
                | Err err \<Rightarrow> Err err
                | Panic p \<Rightarrow> Panic p)))"

definition Parse :: "env \<Rightarrow> string \<Rightarrow> string \<Rightarrow> Consumer result" where
  "Parse e mapURL b =
     (case json_Unmarshal e b of
        Inl err \<Rightarrow> Err (MalformedDocument err)
      | Inr v \<Rightarrow>
          (case checkVersion (Version (embedded v)) of
             Some err \<Rightarrow> Err err
           | None \<Rightarrow>
               (let secs = (if length (Sections v) = 0
                            then Sections v @
                                 [\<lparr>Offset = \<lparr>Line = 0, Column = 0\<rparr>, Map = Some (embedded v)\<rparr>]
                            else Sections v)
                in case parse_sections e mapURL secs of
                     Err err \<Rightarrow> Err err
                   | Panic p \<Rightarrow> Panic p
                   | Ok secs' \<Rightarrow> Ok \<lparr>file' = File (embedded v), sections = reverse secs'\<rparr>)))"

definition File_of :: "Consumer \<Rightarrow> string" where
  "File_of c = file' c"

subsection \<open>The specification's reading of a lookup\<close>

text \<open>
  Positions in the generated file, ordered lexicographically on (line, column) with the
  signed comparison of \<^verbatim>\<open>int\<close>.
\<close>

type_synonym position = "go_int \<times> go_int"

definition pos :: "mapping \<Rightarrow> position" where
  "pos r = (genLine r, genColumn r)"

definition pos_less :: "position \<Rightarrow> position \<Rightarrow> bool" where
  "pos_less p q = (fst p <s fst q \<or> (fst p = fst q \<and> snd p <s snd q))"

definition pos_le :: "position \<Rightarrow> position \<Rightarrow> bool" where
  "pos_le p q = (fst p <s fst q \<or> (fst p = fst q \<and> snd p \<le>s snd q))"

definition records_sorted :: "mapping list \<Rightarrow> bool" where
  "records_sorted ms = sorted_wrt (\<lambda>a b. pos_le (pos a) (pos b)) ms"

text \<open>
  Section 4.4 of the specification, in its own words: the index of the first record whose
  position is not less than the query, found by scanning from the front, and the three
  outcomes.
\<close>

definition spec_first_not_less :: "mapping list \<Rightarrow> position \<Rightarrow> nat" where
  "spec_first_not_less ms q = length (takeWhile (\<lambda>r. pos_less (pos r) q) ms)"

definition spec_lookup :: "env \<Rightarrow> sourceMap \<Rightarrow> go_int \<Rightarrow> go_int \<Rightarrow> lookup result" where
  "spec_lookup e m qLine qColumn =
     (let ms = mappings m; i = spec_first_not_less ms (qLine, qColumn)
      in if i = length ms then Ok not_found
         else if qLine <s genLine (ms ! i) \<or> qColumn <s genColumn (ms ! i)
         then (if i = 0 then Ok not_found else resolve e m (ms ! (i - 1)))
         else resolve e m (ms ! i))"

text \<open>
  The outcome the specification promises for a record \<open>r\<close>: its resolved source, its
  rendered name, its original line and column, and \<^verbatim>\<open>found = true\<close>.
\<close>

definition record_result :: "env \<Rightarrow> sourceMap \<Rightarrow> mapping \<Rightarrow> lookup" where
  "record_result e m r =
     (if 0 \<le>s sourcesInd r then absSource e m (slice_at (Sources m) (sourcesInd r)) else [],
      if 0 \<le>s namesInd r then render e (slice_at (Names m) (namesInd r)) else [],
      sourceLine r, sourceColumn r, True)"

subsection \<open>Numbers as decimal text\<close>



















subsection \<open>Sample documents\<close>

text \<open>
  Concrete values on which the theorems below are exercised. The library functions of
  \<open>sample_env\<close> and its \<open>parseMappings\<close> are tables: they give the answers on the strings
  used here and a default elsewhere.
\<close>

text \<open>The records of the mapping string \<^verbatim>\<open>AAAA,IACEA;ACGFC\<close>; the decoder counts generated
  and original lines from 1.\<close>

definition rec_a :: mapping where
  "rec_a = \<lparr>genLine = 1, genColumn = 0, sourcesInd = 0, sourceLine = 1, sourceColumn = 0,
            namesInd = - 1\<rparr>"

definition rec_b :: mapping where
  "rec_b = \<lparr>genLine = 1, genColumn = 4, sourcesInd = 0, sourceLine = 2, sourceColumn = 2,
            namesInd = 0\<rparr>"

definition rec_c :: mapping where
  "rec_c = \<lparr>genLine = 2, genColumn = 0, sourcesInd = 1, sourceLine = 5, sourceColumn = 0,
            namesInd = 1\<rparr>"

text \<open>A second record at the position of \<open>rec_a\<close>, with another original line.\<close>

definition rec_a2 :: mapping where
  "rec_a2 = \<lparr>genLine = 1, genColumn = 0, sourcesInd = 0, sourceLine = 7, sourceColumn = 0,
             namesInd = - 1\<rparr>"

definition http_url :: "string \<Rightarrow> string \<Rightarrow> url" where
  "http_url h p = \<lparr>Scheme = ''http'', Opaque = [], Host = h, Path = p, RawQuery = [],
                   Fragment = []\<rparr>"

definition relative_url :: "string \<Rightarrow> url" where
  "relative_url p = \<lparr>Scheme = [], Opaque = [], Host = [], Path = p, RawQuery = [],
                     Fragment = []\<rparr>"

definition sample_origin :: string where
  "sample_origin = ''http://example.com/assets/app.js.map''"

text \<open>A flat document and what \<^verbatim>\<open>json.Unmarshal\<close> decodes it to; the number 42 in
  \<^verbatim>\<open>names\<close> is the \<^verbatim>\<open>float64\<close> with the bits \<^verbatim>\<open>0x4045000000000000\<close>.\<close>

definition flat_bytes :: string where
  \<open>flat_bytes = ''{"version":3,"file":"app.js","sources":["a.js","b.js"],"names":["foo",42],"mappings":"AAAA,IACEA;ACGFC"}''\<close>

definition sample_map :: sourceMap where
  "sample_map = \<lparr>Version = 3, File = ''app.js'', SourceRoot = [],
                 Sources = [''a.js'', ''b.js''],
                 Names = [JString ''foo'', JFloat64 0x4045000000000000],
                 Mappings = ''AAAA,IACEA;ACGFC'', sourceRootURL = None, mappings = []\<rparr>"

definition sample_flat :: v3 where
  "sample_flat = \<lparr>embedded = sample_map, Sections = []\<rparr>"

text \<open>The same document with version 2.\<close>

definition version2_bytes :: string where
  \<open>version2_bytes = ''{"version":2,"file":"app.js","sources":["a.js","b.js"],"names":["foo",42],"mappings":"AAAA,IACEA;ACGFC"}''\<close>

definition sample_version2 :: v3 where
  "sample_version2 = \<lparr>embedded = sample_map\<lparr>Version := 2\<rparr>, Sections = []\<rparr>"

text \<open>The top-level fields of the indexed samples.\<close>

definition bundle_top :: sourceMap where
  "bundle_top = \<lparr>Version = 3, File = ''bundle.js'', SourceRoot = [], Sources = [],
                 Names = [], Mappings = [], sourceRootURL = None, mappings = []\<rparr>"

text \<open>An indexed document with sections at (0, 0) and (5, 10); the map of the second
  section has the relative source root \<^verbatim>\<open>src\<close>.\<close>

definition indexed_bytes :: string where
  \<open>indexed_bytes = ''{"version":3,"file":"bundle.js","sections":[{"offset":{"line":0,"column":0},"map":{"version":3,"file":"app.js","sources":["a.js","b.js"],"names":["foo",42],"mappings":"AAAA,IACEA;ACGFC"}},{"offset":{"line":5,"column":10},"map":{"version":3,"file":"app.js","sourceRoot":"src","sources":["a.js","b.js"],"names":["foo",42],"mappings":"AAAA,IACEA;ACGFC"}}]}''\<close>

definition sample_indexed :: v3 where
  "sample_indexed =
     \<lparr>embedded = bundle_top,
      Sections = [\<lparr>Offset = \<lparr>Line = 0, Column = 0\<rparr>, Map = Some sample_map\<rparr>,
                  \<lparr>Offset = \<lparr>Line = 5, Column = 10\<rparr>,
                   Map = Some (sample_map\<lparr>SourceRoot := ''src''\<rparr>)\<rparr>]\<rparr>"

text \<open>An indexed document whose second section's map is of version 2.\<close>

definition indexed_version2_bytes :: string where
  \<open>indexed_version2_bytes = ''{"version":3,"file":"bundle.js","sections":[{"offset":{"line":0,"column":0},"map":{"version":3,"file":"app.js","sources":["a.js","b.js"],"names":["foo",42],"mappings":"AAAA,IACEA;ACGFC"}},{"offset":{"line":5,"column":10},"map":{"version":2,"file":"app.js","sources":["a.js","b.js"],"names":["foo",42],"mappings":"AAAA,IACEA;ACGFC"}}]}''\<close>

definition sample_indexed_version2 :: v3 where
  "sample_indexed_version2 =
     \<lparr>embedded = bundle_top,
      Sections = [\<lparr>Offset = \<lparr>Line = 0, Column = 0\<rparr>, Map = Some sample_map\<rparr>,
                  \<lparr>Offset = \<lparr>Line = 5, Column = 10\<rparr>,
                   Map = Some (sample_map\<lparr>Version := 2\<rparr>)\<rparr>]\<rparr>"

text \<open>An indexed document whose only section has no \<^verbatim>\<open>map\<close> member: the pointer stays
  \<^verbatim>\<open>nil\<close>.\<close>

definition no_map_bytes :: string where
  \<open>no_map_bytes = ''{"version":3,"file":"bundle.js","sections":[{"offset":{"line":0,"column":0}}]}''\<close>

definition sample_no_map :: v3 where
  "sample_no_map =
     \<lparr>embedded = bundle_top,
      Sections = [\<lparr>Offset = \<lparr>Line = 0, Column = 0\<rparr>, Map = None\<rparr>]\<rparr>"

definition sample_env :: env where
  "sample_env =
     \<lparr>json_Unmarshal = (\<lambda>b. if b = flat_bytes then Inr sample_flat
                             else if b = version2_bytes then Inr sample_version2
                             else if b = indexed_bytes then Inr sample_indexed
                             else if b = indexed_version2_bytes then Inr sample_indexed_version2
                             else if b = no_map_bytes then Inr sample_no_map
                             else Inl ''unexpected end of JSON input''),
      url_Parse = (\<lambda>s. if s = sample_origin
                        then Inr (http_url ''example.com'' ''/assets/app.js.map'')
                        else if s = ''http://cdn.example.com/lib.js''
                        then Inr (http_url ''cdn.example.com'' ''/lib.js'')
                        else Inr (relative_url s)),
      url_String = (\<lambda>u. if Scheme u = [] then Path u
                         else Scheme u @ ''://'' @ Host u @ Path u),
      path_Dir = (\<lambda>p. if p = ''/assets/app.js.map'' then ''/assets'' else ''.''),
      path_Join = (\<lambda>a b. a @ ''/'' @ b),
      parseMappings = (\<lambda>s. if s = ''AAAA,IACEA;ACGFC'' then Inr [rec_a, rec_b, rec_c]
                            else if s = [] then Inr []
                            else Inl ''invalid mappings''),
      strconv_FormatFloat = (\<lambda>x fmt prec bitSize.
                               if x = 0x4045000000000000 \<and> fmt = CHR ''f'' \<and> bitSize = 64
                               then (if prec = - 1 then ''42''
                                     else if prec = 1 then ''42.0'' else ''42.00'')
                               else ''0''),
      fmt_Sprint = (\<lambda>v. ''<nil>'')\<rparr>"

text \<open>What \<open>sourceMap.parse\<close> makes of \<open>sample_map\<close> for the origin \<open>sample_origin\<close>.\<close>

definition parsed_map :: sourceMap where
  "parsed_map = sample_map\<lparr>Mappings := [],
       sourceRootURL := Some (http_url ''example.com'' ''/assets''),
       mappings := [rec_a, rec_b, rec_c]\<rparr>"

text \<open>A sub-map in which two records share a generated position, as the mapping string
  \<^verbatim>\<open>AAAA,AAMA,IAJEA\<close> produces (the second entry has a column delta of zero).\<close>

definition dup_map :: sourceMap where
  "dup_map = parsed_map\<lparr>mappings := [rec_a, rec_a2, rec_b]\<rparr>"

text \<open>A sub-map with a relative, non-empty source root.\<close>

definition rel_root_map :: sourceMap where
  "rel_root_map = sample_map\<lparr>SourceRoot := ''src''\<rparr>"

text \<open>The consumers \<open>Parse\<close> builds from the flat and from the indexed sample.\<close>

definition flat_consumer :: Consumer where
  "flat_consumer =
     \<lparr>file' = ''app.js'',
      sections = [\<lparr>Offset = \<lparr>Line = 0, Column = 0\<rparr>, Map = Some parsed_map\<rparr>]\<rparr>"

definition indexed_consumer :: Consumer where
  "indexed_consumer =
     \<lparr>file' = ''bundle.js'',
      sections = [\<lparr>Offset = \<lparr>Line = 5, Column = 10\<rparr>,
                   Map = Some (rel_root_map\<lparr>Mappings := [],
                                 mappings := [rec_a, rec_b, rec_c]\<rparr>)\<rparr>,
                  \<lparr>Offset = \<lparr>Line = 0, Column = 0\<rparr>, Map = Some parsed_map\<rparr>]\<rparr>"

section \<open>Properties\<close>

subsection \<open>The binary search\<close>

lemma Search_loop_spec:
  assumes "i \<le> j" "j \<le> n"
    and mono: "\<And>a b. a \<le> b \<Longrightarrow> b < n \<Longrightarrow> f a \<Longrightarrow> f b"
    and lo: "\<And>k. k < i \<Longrightarrow> \<not> f k"
    and hi: "j < n \<Longrightarrow> f j"
  shows "i \<le> Search_loop f i j \<and> Search_loop f i j \<le> j \<and>
         (\<forall>k < Search_loop f i j. \<not> f k) \<and>
         (Search_loop f i j < n \<longrightarrow> f (Search_loop f i j))"
  using assms
proof (induction f i j rule: Search_loop.induct)
  case (1 f i j)
  show ?case
  proof (cases "i < j")
    case False
    with "1.prems" have "i = j" by simp
    then have "Search_loop f i j = i" by (simp add: Search_loop.simps)
    with \<open>i = j\<close> "1.prems" show ?thesis by auto
  next
    case True
    define h where "h = (i + j) div 2"
    have hb: "i \<le> h" "h < j" using True by (auto simp: h_def)
    show ?thesis
    proof (cases "f h")
      case False
      have eq: "Search_loop f i j = Search_loop f (h + 1) j"
        using True False by (subst Search_loop.simps) (simp add: h_def Let_def)
      have lo': "\<And>k. k < h + 1 \<Longrightarrow> \<not> f k"
      proof -
        fix k assume "k < h + 1"
        then have "k \<le> h" by simp
        moreover have "h < n" using hb "1.prems"(2) by simp
        ultimately show "\<not> f k" using "1.prems"(3)[of k h] False by blast
      qed
      have "h + 1 \<le> Search_loop f (h + 1) j \<and> Search_loop f (h + 1) j \<le> j \<and>
         (\<forall>k < Search_loop f (h + 1) j. \<not> f k) \<and>
         (Search_loop f (h + 1) j < n \<longrightarrow> f (Search_loop f (h + 1) j))"
        using "1.IH"(1)[OF True h_def False _ "1.prems"(2) "1.prems"(3) lo' "1.prems"(5)] hb
        by simp
      with eq hb show ?thesis by auto
    next
      case fh: True
      have eq: "Search_loop f i j = Search_loop f i h"
        using True fh by (subst Search_loop.simps) (simp add: h_def Let_def)
      have "h \<le> n" using hb "1.prems"(2) by simp
      have "i \<le> Search_loop f i h \<and> Search_loop f i h \<le> h \<and>
         (\<forall>k < Search_loop f i h. \<not> f k) \<and>
         (Search_loop f i h < n \<longrightarrow> f (Search_loop f i h))"
        using "1.IH"(2)[OF True h_def _ hb(1) \<open>h \<le> n\<close> "1.prems"(3) "1.prems"(4)] fh
        by simp
      with eq hb show ?thesis by auto
    qed
  qed
qed

lemma go_int_eq_iff: "(a :: go_int) = b \<longleftrightarrow> sint a = sint b"
  by (rule word_eq_iff_signed)

lemmas signed_simps = word_sless_alt word_sle_eq go_int_eq_iff

lemma pos_less_irrefl: "\<not> pos_less p p"
  by (simp add: pos_less_def)

lemma pos_le_iff_not_less: "pos_le p q \<longleftrightarrow> \<not> pos_less q p"
  by (auto simp: pos_le_def pos_less_def signed_simps)

lemma pos_le_less_trans: "pos_le p q \<Longrightarrow> pos_less q r \<Longrightarrow> pos_less p r"
  by (auto simp: pos_le_def pos_less_def signed_simps)

lemma pos_less_le_trans: "pos_less p q \<Longrightarrow> pos_le q r \<Longrightarrow> pos_less p r"
  by (auto simp: pos_le_def pos_less_def signed_simps)

lemma pos_le_trans: "pos_le p q \<Longrightarrow> pos_le q r \<Longrightarrow> pos_le p r"
  by (auto simp: pos_le_def pos_less_def signed_simps)

lemma pos_le_refl: "pos_le p p"
  by (simp add: pos_le_def)

lemma search_pred_iff:
  "search_pred ms qLine qColumn i \<longleftrightarrow> \<not> pos_less (pos (ms ! i)) (qLine, qColumn)"
  by (auto simp: search_pred_def Let_def pos_less_def pos_def signed_simps)

lemma fuzzy_iff:
  "\<not> pos_less (pos r) (qLine, qColumn) \<Longrightarrow>
   (qLine <s genLine r \<or> qColumn <s genColumn r) \<longleftrightarrow> pos_less (qLine, qColumn) (pos r)"
  by (auto simp: pos_less_def pos_def signed_simps)


lemma pos_less_asym: "pos_less p q \<Longrightarrow> \<not> pos_less q p"
  by (auto simp: pos_less_def signed_simps)

lemma pos_less_imp_le: "pos_less p q \<Longrightarrow> pos_le p q"
  by (auto simp: pos_less_def pos_le_def signed_simps)

lemma search_pred_mono:
  assumes "records_sorted ms" "a \<le> b" "b < length ms" "search_pred ms qLine qColumn a"
  shows "search_pred ms qLine qColumn b"
proof (cases "a = b")
  case True
  with assms show ?thesis by simp
next
  case False
  with assms have "a < b" by simp
  with assms have "pos_le (pos (ms ! a)) (pos (ms ! b))"
    using sorted_wrt_nth_less[of "\<lambda>a b. pos_le (pos a) (pos b)" ms a b]
    by (simp add: records_sorted_def)
  then have "pos_less (pos (ms ! b)) (qLine, qColumn) \<Longrightarrow>
      pos_less (pos (ms ! a)) (qLine, qColumn)"
    by (rule pos_le_less_trans)
  then show ?thesis
    using assms(4) by (auto simp: search_pred_iff)
qed

lemma Search_props:
  fixes ms :: "mapping list" and qLine qColumn :: go_int
  assumes "records_sorted ms"
  defines "i \<equiv> Search (length ms) (search_pred ms qLine qColumn)"
  shows "i \<le> length ms"
    and "\<And>k. k < i \<Longrightarrow> pos_less (pos (ms ! k)) (qLine, qColumn)"
    and "i < length ms \<Longrightarrow> \<not> pos_less (pos (ms ! i)) (qLine, qColumn)"
proof -
  let ?f = "search_pred ms qLine qColumn"
  have s: "0 \<le> Search_loop ?f 0 (length ms) \<and> Search_loop ?f 0 (length ms) \<le> length ms \<and>
        (\<forall>k < Search_loop ?f 0 (length ms). \<not> ?f k) \<and>
        (Search_loop ?f 0 (length ms) < length ms \<longrightarrow> ?f (Search_loop ?f 0 (length ms)))"
    by (rule Search_loop_spec[where n = "length ms"])
       (use assms(1) search_pred_mono in auto)
  show "i \<le> length ms" using s by (simp add: i_def Search_def)
  show "\<And>k. k < i \<Longrightarrow> pos_less (pos (ms ! k)) (qLine, qColumn)"
    using s by (simp add: i_def Search_def search_pred_iff)
  show "i < length ms \<Longrightarrow> \<not> pos_less (pos (ms ! i)) (qLine, qColumn)"
    using s by (simp add: i_def Search_def search_pred_iff)
qed

lemma Search_first_not_less:
  assumes "records_sorted ms"
  shows "Search (length ms) (search_pred ms qLine qColumn) =
         spec_first_not_less ms (qLine, qColumn)"
proof -
  let ?i = "Search (length ms) (search_pred ms qLine qColumn)"
  have "takeWhile (\<lambda>r. pos_less (pos r) (qLine, qColumn)) ms = take ?i ms"
    by (rule takeWhile_eq_take_P_nth) (use Search_props[OF assms] in auto)
  then show ?thesis
    using Search_props(1)[OF assms, where qLine = qLine and qColumn = qColumn] by (simp add: spec_first_not_less_def)
qed

lemma match_index_bound:
  assumes "records_sorted ms" "match_index ms qLine qColumn = Some k"
  shows "k < length ms"
  using assms(2) Search_props(1)[OF assms(1), where qLine = qLine and qColumn = qColumn]
  by (auto simp: match_index_def Let_def split: if_splits)

lemma match_index_not_greater:
  assumes "records_sorted ms" "match_index ms qLine qColumn = Some k"
  shows "\<not> pos_less (qLine, qColumn) (pos (ms ! k))"
proof -
  define i where "i = Search (length ms) (search_pred ms qLine qColumn)"
  note p = Search_props[OF assms(1), where qLine = qLine and qColumn = qColumn, folded i_def]
  from assms(2) have lt: "i < length ms"
    using p(1) by (auto simp: match_index_def Let_def i_def split: if_splits)
  show ?thesis
  proof (cases "qLine <s genLine (ms ! i) \<or> qColumn <s genColumn (ms ! i)")
    case True
    with assms(2) lt have "0 < i" "k = i - 1"
      by (auto simp: match_index_def Let_def i_def split: if_splits)
    then have "pos_less (pos (ms ! k)) (qLine, qColumn)" using p(2) by simp
    then show ?thesis by (rule pos_less_asym)
  next
    case False
    with assms(2) lt have "k = i"
      by (auto simp: match_index_def Let_def i_def split: if_splits)
    then show ?thesis using False fuzzy_iff[OF p(3)[OF lt]] by simp
  qed
qed

lemma match_index_mono:
  assumes srt: "records_sorted ms"
    and le: "pos_le (l1, c1) (l2, c2)"
    and m1: "match_index ms l1 c1 = Some k1"
    and m2: "match_index ms l2 c2 = Some k2"
  shows "k1 \<le> k2"
proof -
  define i1 where "i1 = Search (length ms) (search_pred ms l1 c1)"
  define i2 where "i2 = Search (length ms) (search_pred ms l2 c2)"
  note p1 = Search_props[OF srt, where qLine = l1 and qColumn = c1, folded i1_def]
  note p2 = Search_props[OF srt, where qLine = l2 and qColumn = c2, folded i2_def]
  from m1 have lt1: "i1 < length ms"
    using p1(1) by (auto simp: match_index_def Let_def i1_def split: if_splits)
  from m2 have lt2: "i2 < length ms"
    using p2(1) by (auto simp: match_index_def Let_def i2_def split: if_splits)
  have i12: "i1 \<le> i2"
  proof (rule ccontr)
    assume "\<not> i1 \<le> i2"
    then have "i2 < i1" by simp
    then have "pos_less (pos (ms ! i2)) (l1, c1)" by (rule p1(2))
    then have "pos_less (pos (ms ! i2)) (l2, c2)" using le by (rule pos_less_le_trans)
    with p2(3)[OF lt2] show False by simp
  qed
  from m1 lt1 have k1: "k1 \<le> i1" "k1 = i1 \<or> (k1 = i1 - 1 \<and> 0 < i1)"
    by (auto simp: match_index_def Let_def i1_def split: if_splits)
  show ?thesis
  proof (cases "l2 <s genLine (ms ! i2) \<or> c2 <s genColumn (ms ! i2)")
    case False
    with m2 lt2 have "k2 = i2"
      by (auto simp: match_index_def Let_def i2_def split: if_splits)
    with k1 i12 show ?thesis by simp
  next
    case True
    with m2 lt2 have k2: "k2 = i2 - 1" "0 < i2"
      by (auto simp: match_index_def Let_def i2_def split: if_splits)
    show ?thesis
    proof (cases "i1 = i2")
      case False
      with i12 k1 k2 show ?thesis by linarith
    next
      case eq: True
      from True have "pos_less (l2, c2) (pos (ms ! i2))"
        using fuzzy_iff[OF p2(3)[OF lt2]] by simp
      with le have "pos_less (l1, c1) (pos (ms ! i1))"
        unfolding eq by (rule pos_le_less_trans)
      then have "l1 <s genLine (ms ! i1) \<or> c1 <s genColumn (ms ! i1)"
        using fuzzy_iff[OF p1(3)[OF lt1]] by simp
      with m1 lt1 have "k1 = i1 - 1"
        by (auto simp: match_index_def Let_def i1_def split: if_splits)
      with k2 eq show ?thesis by simp
    qed
  qed
qed

subsection \<open>The in-place reversal\<close>

lemma reverse_loop_length: "length (reverse_loop i ss) = length ss"
proof (induction i ss rule: reverse_loop.induct)
  case (1 i ss)
  show ?case
  proof (cases "i < length ss div 2")
    case True
    then show ?thesis using "1.IH" by (subst reverse_loop.simps) simp
  next
    case False
    then show ?thesis by (subst reverse_loop.simps) simp
  qed
qed

lemma reverse_loop_nth:
  "i \<le> length ss div 2 \<Longrightarrow> k < length ss \<Longrightarrow>
   reverse_loop i ss ! k =
     (if i \<le> k \<and> k < length ss - i then ss ! (length ss - 1 - k) else ss ! k)"
proof (induction i ss arbitrary: k rule: reverse_loop.induct)
  case (1 i ss)
  let ?n = "length ss"
  show ?case
  proof (cases "i < ?n div 2")
    case False
    with "1.prems" have i: "i = ?n div 2" by simp
    have "reverse_loop i ss = ss" using False by (subst reverse_loop.simps) simp
    moreover have "i \<le> k \<and> k < ?n - i \<Longrightarrow> ?n - 1 - k = k"
      using i by presburger
    ultimately show ?thesis by auto
  next
    case True
    let ?ss' = "ss[i := ss ! (?n - 1 - i), ?n - 1 - i := ss ! i]"
    have eq: "reverse_loop i ss = reverse_loop (i + 1) ?ss'"
      using True by (subst reverse_loop.simps) simp
    have len: "length ?ss' = ?n" by simp
    have lt: "i < ?n - 1 - i" "?n - 1 - i < ?n" "i < ?n - i" "?n - 1 - i < ?n - i"
      "?n - 1 - (?n - 1 - i) = i" "i < ?n"
      using True by presburger+
    have ih: "reverse_loop (i + 1) ?ss' ! k =
        (if i + 1 \<le> k \<and> k < ?n - (i + 1) then ?ss' ! (?n - 1 - k) else ?ss' ! k)"
      using "1.IH"[OF True, of k] True "1.prems"(2) by simp
    consider "k < i" | "k = i" | "i < k" "k < ?n - 1 - i" | "k = ?n - 1 - i" | "?n - 1 - i < k"
      by linarith
    then show ?thesis
    proof cases
      case 1
      then have "k < ?n - 1 - i" using lt by linarith
      then show ?thesis using 1 eq ih lt "1.prems"(2) by (simp add: nth_list_update)
    next
      case 2
      then show ?thesis using eq ih lt "1.prems"(2) by (simp add: nth_list_update)
    next
      case 3
      then have "?n - 1 - k \<noteq> i" "?n - 1 - k \<noteq> ?n - 1 - i" "?n - 1 - k < ?n"
        using lt by linarith+
      then show ?thesis using eq ih lt 3 "1.prems"(2) by (simp add: nth_list_update)
    next
      case 4
      then show ?thesis using eq ih lt "1.prems"(2) by (simp add: nth_list_update)
    next
      case 5
      then have "\<not> k < ?n - i" "i < k" using lt by linarith+
      then show ?thesis using 5 eq ih lt "1.prems"(2) by (simp add: nth_list_update)
    qed
  qed
qed

lemma reverse_eq_rev: "reverse ss = rev ss"
proof (rule nth_equalityI)
  show "length (reverse ss) = length (rev ss)"
    by (simp add: reverse_def reverse_loop_length)
next
  fix k assume "k < length (reverse ss)"
  then have k: "k < length ss" by (simp add: reverse_def reverse_loop_length)
  then show "reverse ss ! k = rev ss ! k"
    by (simp add: reverse_def reverse_loop_nth rev_nth)
qed

lemmas sample_defs = sample_env_def sample_flat_def sample_indexed_def sample_no_map_def
  sample_map_def sample_origin_def http_url_def relative_url_def rec_a_def rec_b_def rec_c_def
  rec_a2_def parsed_map_def dup_map_def rel_root_map_def flat_consumer_def
  indexed_consumer_def sample_version2_def sample_indexed_version2_def bundle_top_def
  flat_bytes_def version2_bytes_def indexed_bytes_def indexed_version2_bytes_def
  no_map_bytes_def

lemmas lookup_defs = source_def match_index_def Search_def Search_loop.simps search_pred_def
  resolve_def in_range_def slice_at_def absSource_def is_abs_url_def path_IsAbs_def IsAbs_def
  render_def Let_def word_sless_alt word_sle_eq

lemma parsed_map_sorted: "records_sorted (mappings parsed_map)"
  by (simp add: records_sorted_def pos_le_def pos_def sample_defs word_sless_alt word_sle_eq)

subsection \<open>Sections and construction\<close>

lemmas parse_defs = Parse_def parse_def parse_root_def checkVersion_def IsAbs_def
  reverse_eq_rev

lemma parse_sections_Ok:
  "parse_sections e u ss = Ok ss' \<Longrightarrow>
   map Offset ss' = map Offset ss \<and> (\<forall>s \<in> set ss'. Map s \<noteq> None)"
  by (induction ss arbitrary: ss') (auto split: option.splits sum.splits result.splits)

lemma Source_loop_find:
  "Source_loop e ss qLine qColumn =
     (case find (\<lambda>s. selects s qLine qColumn) ss of
        None \<Rightarrow> Ok not_found
      | Some s \<Rightarrow>
          (case Map s of
             None \<Rightarrow> Panic NilPointerDereference
           | Some m \<Rightarrow> source e m (qLine - Line (Offset s)) (qColumn - Column (Offset s))))"
  by (induction ss) (simp_all add: selects_def)

lemma Parse_Ok_sections:
  assumes "Parse e mapURL b = Ok c"
  obtains v secs' where "json_Unmarshal e b = Inr v"
    and "checkVersion (Version (embedded v)) = None"
    and "parse_sections e mapURL
           (if length (Sections v) = 0
            then Sections v @ [\<lparr>Offset = \<lparr>Line = 0, Column = 0\<rparr>, Map = Some (embedded v)\<rparr>]
            else Sections v) = Ok secs'"
    and "sections c = rev secs'"
  using assms
  by (auto simp: Parse_def Let_def reverse_eq_rev split: sum.splits option.splits result.splits)

lemmas bytes_defs = flat_bytes_def version2_bytes_def indexed_bytes_def
  indexed_version2_bytes_def no_map_bytes_def

lemma Parse_indexed: "Parse sample_env sample_origin indexed_bytes = Ok indexed_consumer"
  by (simp add: parse_defs sample_defs)

lemma Parse_flat: "Parse sample_env sample_origin flat_bytes = Ok flat_consumer"
  by (simp add: parse_defs sample_defs)

lemma parse_sample_map: "parse sample_env sample_map sample_origin = Inr parsed_map"
  by (simp add: parse_def parse_root_def checkVersion_def IsAbs_def sample_defs)

lemma pos_le_neq_less: "pos_le p q \<Longrightarrow> p \<noteq> q \<Longrightarrow> pos_less p q"
  by (cases p, cases q) (auto simp: pos_le_def pos_less_def signed_simps)

lemma Search_first_record:
  assumes srt: "records_sorted ms" and k: "k < length ms"
    and first: "\<forall>j<k. pos (ms ! j) \<noteq> pos (ms ! k)"
  shows "Search (length ms) (search_pred ms (genLine (ms ! k)) (genColumn (ms ! k))) = k"
proof -
  define i where "i = Search (length ms) (search_pred ms (genLine (ms ! k)) (genColumn (ms ! k)))"
  note p = Search_props[OF srt, where qLine = "genLine (ms ! k)"
      and qColumn = "genColumn (ms ! k)", folded i_def, folded pos_def]
  have "\<not> k < i"
  proof
    assume "k < i"
    then have "pos_less (pos (ms ! k)) (pos (ms ! k))" by (rule p(2))
    then show False by (simp add: pos_less_irrefl)
  qed
  moreover have "\<not> i < k"
  proof
    assume ik: "i < k"
    with k srt have "pos_le (pos (ms ! i)) (pos (ms ! k))"
      using sorted_wrt_nth_less[of "\<lambda>a b. pos_le (pos a) (pos b)" ms i k]
      by (simp add: records_sorted_def)
    moreover from ik first have "pos (ms ! i) \<noteq> pos (ms ! k)" by simp
    ultimately have "pos_less (pos (ms ! i)) (pos (ms ! k))" by (rule pos_le_neq_less)
    moreover from ik k have "i < length ms" by simp
    ultimately show False using p(3) by simp
  qed
  ultimately show ?thesis by (simp add: i_def)
qed

lemma checkVersion_None_iff: "checkVersion version = None \<longleftrightarrow> version = 3 \<or> version = 0"
  by (simp add: checkVersion_def)

lemma checkVersion_unsupported:
  "version \<noteq> 3 \<Longrightarrow> version \<noteq> 0 \<Longrightarrow> checkVersion version = Some (UnsupportedVersion version)"
  by (simp add: checkVersion_def)

lemma parse_unsupported:
  "Version m \<noteq> 3 \<Longrightarrow> Version m \<noteq> 0 \<Longrightarrow> parse e m mapURL = Inl (UnsupportedVersion (Version m))"
  by (simp add: parse_def checkVersion_def)

lemma parse_Inr_version: "parse e m mapURL = Inr m' \<Longrightarrow> Version m = 3 \<or> Version m = 0"
  by (auto simp: parse_def checkVersion_def split: if_splits)

lemma Parse_unsupported:
  "json_Unmarshal e b = Inr v \<Longrightarrow> Version (embedded v) \<noteq> 3 \<Longrightarrow> Version (embedded v) \<noteq> 0 \<Longrightarrow>
   Parse e mapURL b = Err (UnsupportedVersion (Version (embedded v)))"
  by (simp add: Parse_def checkVersion_def)

lemma parse_sections_versions:
  "parse_sections e u ss = Ok ss' \<Longrightarrow> s \<in> set ss \<Longrightarrow> Map s = Some sm \<Longrightarrow>
   Version sm = 3 \<or> Version sm = 0"
proof (induction ss arbitrary: ss')
  case Nil
  then show ?case by simp
next
  case (Cons x xs)
  from Cons.prems(1) obtain m m' xs' where x: "Map x = Some m" "parse e m u = Inr m'"
    and xs: "parse_sections e u xs = Ok xs'"
    by (auto split: option.splits sum.splits result.splits)
  show ?case
  proof (cases "s = x")
    case True
    with x Cons.prems(3) show ?thesis using parse_Inr_version by auto
  next
    case False
    with Cons.prems(2) have "s \<in> set xs" by simp
    then show ?thesis using Cons.IH[OF xs _ Cons.prems(3)] by simp
  qed
qed

lemma parse_sections_first_unsupported:
  "\<forall>s' \<in> set pre. \<exists>m1 m2. Map s' = Some m1 \<and> parse e m1 u = Inr m2 \<Longrightarrow>
   Map s = Some m \<Longrightarrow> Version m \<noteq> 3 \<Longrightarrow> Version m \<noteq> 0 \<Longrightarrow>
   parse_sections e u (pre @ s # post) = Err (UnsupportedVersion (Version m))"
proof (induction pre)
  case Nil
  then show ?case by (simp add: parse_unsupported)
next
  case (Cons x xs)
  from Cons.prems(1) obtain m1 m2 where "Map x = Some m1" "parse e m1 u = Inr m2" by auto
  moreover have "parse_sections e u (xs @ s # post) = Err (UnsupportedVersion (Version m))"
    using Cons by simp
  ultimately show ?case by simp
qed

lemma Parse_Ok_versions:
  assumes "json_Unmarshal e b = Inr v" "Parse e mapURL b = Ok c"
  shows "(Version (embedded v) = 3 \<or> Version (embedded v) = 0) \<and>
         (\<forall>s \<in> set (Sections v). \<forall>sm. Map s = Some sm \<longrightarrow> Version sm = 3 \<or> Version sm = 0)"
proof -
  from assms(2) obtain v' secs' where v': "json_Unmarshal e b = Inr v'"
    and cv: "checkVersion (Version (embedded v')) = None"
    and ps: "parse_sections e mapURL
           (if length (Sections v') = 0
            then Sections v' @ [\<lparr>Offset = \<lparr>Line = 0, Column = 0\<rparr>, Map = Some (embedded v')\<rparr>]
            else Sections v') = Ok secs'"
    by (rule Parse_Ok_sections)
  from v' assms(1) have eq: "v' = v" by simp
  have "\<And>s sm. s \<in> set (Sections v) \<Longrightarrow> Map s = Some sm \<Longrightarrow> Version sm = 3 \<or> Version sm = 0"
  proof -
    fix s sm assume s: "s \<in> set (Sections v)" "Map s = Some sm"
    then have "Sections v \<noteq> []" by auto
    with ps eq have "parse_sections e mapURL (Sections v) = Ok secs'" by simp
    from parse_sections_versions[OF this s] show "Version sm = 3 \<or> Version sm = 0" .
  qed
  with cv eq show ?thesis by (auto simp: checkVersion_None_iff)
qed

lemma Parse_first_unsupported_section:
  assumes "json_Unmarshal e b = Inr v"
    and "Version (embedded v) = 3 \<or> Version (embedded v) = 0"
    and "Sections v = pre @ s # post"
    and "\<forall>s' \<in> set pre. \<exists>m1 m2. Map s' = Some m1 \<and> parse e m1 mapURL = Inr m2"
    and "Map s = Some m" "Version m \<noteq> 3" "Version m \<noteq> 0"
  shows "Parse e mapURL b = Err (UnsupportedVersion (Version m))"
  using assms(1-3) parse_sections_first_unsupported[OF assms(4-7), of post]
  by (auto simp: Parse_def checkVersion_def)

lemma parse_Inr_root:
  assumes "parse e m mapURL = Inr m'"
  obtains m1 where "parse_root e m mapURL = Inr m1" and "sourceRootURL m' = sourceRootURL m1"
  using assms by (auto simp: parse_def split: option.splits sum.splits)

subsection \<open>Decimal text of a float64\<close>












subsection \<open>Version check\<close>

lemma parse_Inl_version:
  "parse e m mapURL = Inl (UnsupportedVersion x) \<Longrightarrow> Version m = x \<and> x \<noteq> 3 \<and> x \<noteq> 0"
  by (auto simp: parse_def checkVersion_def parse_root_def
      split: if_splits sum.splits option.splits)

lemma parse_accepts:
  "Version m = 3 \<or> Version m = 0 \<Longrightarrow> parse e m mapURL \<noteq> Inl (UnsupportedVersion x)"
  using parse_Inl_version by blast

lemma parse_succeeds:
  "Version m = 3 \<or> Version m = 0 \<Longrightarrow> parse_root e m mapURL = Inr mr \<Longrightarrow>
   parseMappings e (Mappings mr) = Inr ms \<Longrightarrow>
   parse e m mapURL = Inr (mr\<lparr>mappings := ms, Mappings := []\<rparr>)"
  by (auto simp: parse_def checkVersion_def)

lemma parse_sections_Err_version:
  "parse_sections e u ss = Err (UnsupportedVersion x) \<Longrightarrow>
   \<exists>s \<in> set ss. \<exists>sm. Map s = Some sm \<and> Version sm = x \<and> x \<noteq> 3 \<and> x \<noteq> 0"
proof (induction ss)
  case Nil
  then show ?case by simp
next
  case (Cons a ss)
  show ?case
  proof (cases "Map a")
    case None
    with Cons.prems show ?thesis by simp
  next
    case (Some am)
    show ?thesis
    proof (cases "parse e am u")
      case (Inl err)
      with Some Cons.prems have "parse e am u = Inl (UnsupportedVersion x)" by simp
      from parse_Inl_version[OF this] Some show ?thesis by auto
    next
      case (Inr am')
      with Some Cons.prems have "parse_sections e u ss = Err (UnsupportedVersion x)"
        by (simp split: result.splits)
      from Cons.IH[OF this] show ?thesis by auto
    qed
  qed
qed

lemma Parse_accepts:
  assumes "json_Unmarshal e b = Inr v"
    and "Version (embedded v) = 3 \<or> Version (embedded v) = 0"
    and "\<forall>s' \<in> set (Sections v). \<forall>sm. Map s' = Some sm \<longrightarrow> Version sm = 3 \<or> Version sm = 0"
  shows "Parse e mapURL b \<noteq> Err (UnsupportedVersion x)"
proof
  assume p: "Parse e mapURL b = Err (UnsupportedVersion x)"
  let ?secs = "if length (Sections v) = 0
               then Sections v @ [\<lparr>Offset = \<lparr>Line = 0, Column = 0\<rparr>, Map = Some (embedded v)\<rparr>]
               else Sections v"
  from p assms(1,2) have "parse_sections e mapURL ?secs = Err (UnsupportedVersion x)"
    by (auto simp: Parse_def checkVersion_def Let_def split: result.splits if_splits)
  from parse_sections_Err_version[OF this]
  obtain s sm where s: "s \<in> set ?secs" "Map s = Some sm" "Version sm = x" "x \<noteq> 3" "x \<noteq> 0"
    by blast
  show False
  proof (cases "Sections v = []")
    case True
    with s have "sm = embedded v" by simp
    with s assms(2) show False by simp
  next
    case False
    with s have "s \<in> set (Sections v)" by simp
    with assms(3) s show False by blast
  qed
qed

section \<open>Position index\<close>

text \<open>
  Claim C2. In a sub-map whose records are non-decreasing in (genLine, genColumn),
  \<open>Consumer.source\<close> does what section 4.4 describes: it takes the first record that is
  not lexicographically less than the query; there is no such record: not found; that
  record is greater than the query on either field: the record just before it, or not
  found when it is the first; otherwise that record itself. \<open>spec_lookup\<close> is that
  description with the first such record found by a scan from the front.
\<close>

theorem source_refines_spec_lookup:
  assumes "records_sorted (mappings m)"
  shows "source e m qLine qColumn = spec_lookup e m qLine qColumn"
  by (simp add: source_def match_index_def spec_lookup_def Let_def
      Search_first_not_less[OF assms])

theorem source_refines_spec_lookup_witness:
  "records_sorted (mappings parsed_map) \<and>
   spec_lookup sample_env parsed_map 1 5 =
     Ok (''http://example.com/assets/a.js'', ''foo'', 2, 2, True)"
proof -
  have "source sample_env parsed_map 1 5 =
      Ok (''http://example.com/assets/a.js'', ''foo'', 2, 2, True)"
    by (simp add: lookup_defs sample_defs)
  then show ?thesis
    using parsed_map_sorted source_refines_spec_lookup [OF parsed_map_sorted, of sample_env 1 5]
    by simp
qed

text \<open>
  Claim C4. In a sub-map with sorted records, the record \<open>Consumer.source\<close> selects is
  never at a position greater than the query, and the selection is monotonic: for query
  positions \<open>p1 \<le> p2\<close> that both select a record, the index selected for \<open>p2\<close> is not
  smaller than the one selected for \<open>p1\<close>.
\<close>

theorem match_index_not_greater_and_monotonic:
  assumes "records_sorted ms"
  shows "(match_index ms qLine qColumn = Some k \<longrightarrow>
            k < length ms \<and> \<not> pos_less (qLine, qColumn) (pos (ms ! k))) \<and>
         (pos_le (l1, c1) (l2, c2) \<and> match_index ms l1 c1 = Some k1 \<and>
          match_index ms l2 c2 = Some k2 \<longrightarrow> k1 \<le> k2)"
  using assms match_index_bound match_index_not_greater match_index_mono by blast

theorem match_index_not_greater_and_monotonic_witness:
  "records_sorted [rec_a, rec_b, rec_c] \<and>
   match_index [rec_a, rec_b, rec_c] 1 5 = Some 1 \<and>
   \<not> pos_less (1, 5) (pos ([rec_a, rec_b, rec_c] ! 1)) \<and>
   pos_le (1, 2) (1, 5) \<and> match_index [rec_a, rec_b, rec_c] 1 2 = Some 0 \<and> (0::nat) \<le> 1"
proof -
  have h: "records_sorted [rec_a, rec_b, rec_c]"
    using parsed_map_sorted by (simp add: parsed_map_def)
  have a: "match_index [rec_a, rec_b, rec_c] 1 5 = Some 1"
    by (simp add: lookup_defs sample_defs)
  have b: "match_index [rec_a, rec_b, rec_c] 1 2 = Some 0"
    by (simp add: lookup_defs sample_defs)
  have c: "pos_le (1, 2) (1, 5)"
    by (simp add: pos_le_def word_sle_eq)
  show ?thesis
    using h a b c
      match_index_not_greater_and_monotonic [OF h, where qLine = 1 and qColumn = 5 and k = 1
        and ?l1.0 = 1 and ?c1.0 = 2 and ?l2.0 = 1 and ?c2.0 = 5 and ?k1.0 = 0 and ?k2.0 = 1]
    by simp
qed

text \<open>
  Claim C3, amended. In a sub-map with sorted records, let \<open>r\<close> be a record that is the
  first one at its generated position (no earlier record has the same genLine and
  genColumn) and whose source and name indices, where present, are below the lengths of
  \<open>sources\<close> and \<open>names\<close>. Then the lookup at \<open>r\<close>'s position returns found = true with
  \<open>r\<close>'s resolved source (\<open>absSource\<close> of the sources entry, or empty), \<open>r\<close>'s rendered name
  (or empty) and \<open>r\<close>'s original line and column.
\<close>

theorem lookup_first_record_at_position:
  assumes "records_sorted (mappings m)"
    and "k < length (mappings m)"
    and "\<forall>j<k. pos (mappings m ! j) \<noteq> pos (mappings m ! k)"
    and "0 \<le>s sourcesInd (mappings m ! k) \<longrightarrow> in_range (sourcesInd (mappings m ! k)) (Sources m)"
    and "0 \<le>s namesInd (mappings m ! k) \<longrightarrow> in_range (namesInd (mappings m ! k)) (Names m)"
  shows "source e m (genLine (mappings m ! k)) (genColumn (mappings m ! k)) =
           Ok (record_result e m (mappings m ! k))"
proof -
  have "match_index (mappings m) (genLine (mappings m ! k)) (genColumn (mappings m ! k)) = Some k"
    using assms(2) by (simp add: match_index_def Search_first_record[OF assms(1-3)])
  then show ?thesis
    using assms(4,5) by (simp add: source_def resolve_def record_result_def)
qed

theorem lookup_first_record_at_position_witness:
  "records_sorted (mappings parsed_map) \<and> (1::nat) < length (mappings parsed_map) \<and>
   mappings parsed_map ! 1 = rec_b \<and>
   source sample_env parsed_map (genLine rec_b) (genColumn rec_b) =
     Ok (''http://example.com/assets/a.js'', ''foo'', 2, 2, True)"
proof -
  have b: "mappings parsed_map ! 1 = rec_b" "(1::nat) < length (mappings parsed_map)"
    by (simp_all add: parsed_map_def)
  have f: "\<forall>j<1. pos (mappings parsed_map ! j) \<noteq> pos (mappings parsed_map ! 1)"
    by (simp add: pos_def sample_defs)
  have r1: "0 \<le>s sourcesInd (mappings parsed_map ! 1) \<longrightarrow>
      in_range (sourcesInd (mappings parsed_map ! 1)) (Sources parsed_map)"
    by (simp add: in_range_def sample_defs)
  have r2: "0 \<le>s namesInd (mappings parsed_map ! 1) \<longrightarrow>
      in_range (namesInd (mappings parsed_map ! 1)) (Names parsed_map)"
    by (simp add: in_range_def sample_defs)
  have v: "record_result sample_env parsed_map rec_b =
      (''http://example.com/assets/a.js'', ''foo'', 2, 2, True)"
    by (simp add: record_result_def lookup_defs sample_defs)
  show ?thesis
    using b v parsed_map_sorted
      lookup_first_record_at_position [OF parsed_map_sorted b(2) f r1 r2, of sample_env]
    by simp
qed

text \<open>
  Claim C3 as stated, for every record, fails where two records share a generated
  position: the lookup at the position of the second one returns the first one's data.
\<close>

theorem lookup_of_every_record_counterexample:
  "records_sorted (mappings dup_map) \<and> rec_a2 \<in> set (mappings dup_map) \<and>
   in_range (sourcesInd rec_a2) (Sources dup_map) \<and> \<not> 0 \<le>s namesInd rec_a2 \<and>
   source sample_env dup_map (genLine rec_a2) (genColumn rec_a2) \<noteq>
     Ok (record_result sample_env dup_map rec_a2)"
  by (simp add: records_sorted_def pos_le_def pos_def record_result_def lookup_defs sample_defs)

section \<open>Section composer\<close>

text \<open>
  Claim C1. For a Consumer \<open>c\<close> built by \<open>Parse\<close>, \<open>Source\<close> scans the stored section list
  in order and delegates to the first section \<open>s\<close> with
  \<open>s.offset.line < genLine\<close>, or \<open>s.offset.line + 1 = genLine\<close> and
  \<open>s.offset.column \<le> genColumn\<close> (the predicate \<open>selects\<close>); the query handed to that
  section's map is the query minus the section's offset line and column; where no section
  is selected the result is not found. The stored list is the document's section list
  reversed.
\<close>

theorem Source_first_selected_section:
  assumes "Parse e mapURL b = Ok c"
  shows "(case find (\<lambda>s. selects s qLine qColumn) (sections c) of
            None \<Rightarrow> Source e c qLine qColumn = Ok not_found
          | Some s \<Rightarrow>
              (\<exists>m. Map s = Some m \<and>
                 Source e c qLine qColumn =
                   source e m (qLine - Line (Offset s)) (qColumn - Column (Offset s)))) \<and>
         (json_Unmarshal e b = Inr v \<and> Sections v \<noteq> [] \<longrightarrow>
            map Offset (sections c) = rev (map Offset (Sections v)))"
proof -
  from assms obtain v' secs' where v': "json_Unmarshal e b = Inr v'"
    and ps: "parse_sections e mapURL
           (if length (Sections v') = 0
            then Sections v' @ [\<lparr>Offset = \<lparr>Line = 0, Column = 0\<rparr>, Map = Some (embedded v')\<rparr>]
            else Sections v') = Ok secs'"
    and sc: "sections c = rev secs'"
    by (rule Parse_Ok_sections)
  note ok = parse_sections_Ok[OF ps]
  have maps: "\<forall>s \<in> set (sections c). Map s \<noteq> None" using ok sc by simp
  have "case find (\<lambda>s. selects s qLine qColumn) (sections c) of
            None \<Rightarrow> Source e c qLine qColumn = Ok not_found
          | Some s \<Rightarrow>
              (\<exists>m. Map s = Some m \<and>
                 Source e c qLine qColumn =
                   source e m (qLine - Line (Offset s)) (qColumn - Column (Offset s)))"
  proof (cases "find (\<lambda>s. selects s qLine qColumn) (sections c)")
    case None
    then show ?thesis by (simp add: Source_def Source_loop_find)
  next
    case (Some s)
    then have "s \<in> set (sections c)" by (auto simp: find_Some_iff)
    with maps obtain m where "Map s = Some m" by auto
    with Some show ?thesis by (simp add: Source_def Source_loop_find)
  qed
  moreover have "json_Unmarshal e b = Inr v \<and> Sections v \<noteq> [] \<longrightarrow>
            map Offset (sections c) = rev (map Offset (Sections v))"
  proof
    assume a: "json_Unmarshal e b = Inr v \<and> Sections v \<noteq> []"
    with v' have "v' = v" by simp
    with ok a have "map Offset secs' = map Offset (Sections v)" by simp
    then have "rev (map Offset secs') = rev (map Offset (Sections v))" by simp
    then show "map Offset (sections c) = rev (map Offset (Sections v))"
      by (simp add: sc rev_map)
  qed
  ultimately show ?thesis by simp
qed

text \<open>On the indexed sample, the query (6, 12) goes to the section at offset (5, 10) as the
  local query (1, 2).\<close>

theorem Source_first_selected_section_witness:
  "Parse sample_env sample_origin indexed_bytes = Ok indexed_consumer \<and>
   Source sample_env indexed_consumer 6 12 = Ok (''src/a.js'', [], 1, 0, True)"
proof -
  have f: "find (\<lambda>s. selects s 6 12) (sections indexed_consumer) =
      Some \<lparr>Offset = \<lparr>Line = 5, Column = 10\<rparr>,
            Map = Some (rel_root_map\<lparr>Mappings := [], mappings := [rec_a, rec_b, rec_c]\<rparr>)\<rparr>"
    by (simp add: indexed_consumer_def selects_def word_sless_alt)
  have s: "source sample_env (rel_root_map\<lparr>Mappings := [], mappings := [rec_a, rec_b, rec_c]\<rparr>)
      (6 - 5) (12 - 10) = Ok (''src/a.js'', [], 1, 0, True)"
    by (simp add: lookup_defs sample_defs)
  show ?thesis
    using Parse_indexed f s
      Source_first_selected_section [OF Parse_indexed, where qLine = 6 and qColumn = 12]
    by simp
qed

text \<open>
  Claim C10. A Consumer built from a flat document has the single section of offset
  (0, 0), and \<open>Source\<close> on generated line 0 is not found for every column, whatever the
  records are.
\<close>

theorem flat_line_zero_not_found:
  assumes "json_Unmarshal e b = Inr v" and "Sections v = []"
    and "Parse e mapURL b = Ok c"
  shows "Source e c 0 qColumn = Ok not_found"
proof -
  from assms(3) obtain v' secs' where v': "json_Unmarshal e b = Inr v'"
    and ps: "parse_sections e mapURL
           (if length (Sections v') = 0
            then Sections v' @ [\<lparr>Offset = \<lparr>Line = 0, Column = 0\<rparr>, Map = Some (embedded v')\<rparr>]
            else Sections v') = Ok secs'"
    and sc: "sections c = rev secs'"
    by (rule Parse_Ok_sections)
  from v' assms(1) have "v' = v" by simp
  with ps assms(2) have "parse_sections e mapURL
      [\<lparr>Offset = \<lparr>Line = 0, Column = 0\<rparr>, Map = Some (embedded v)\<rparr>] = Ok secs'" by simp
  from parse_sections_Ok[OF this] have "map Offset secs' = [\<lparr>Line = 0, Column = 0\<rparr>]"
    by simp
  then obtain s where s: "secs' = [s]" "Offset s = \<lparr>Line = 0, Column = 0\<rparr>"
    by (cases secs') auto
  show ?thesis
    using s sc by (simp add: Source_def)
qed

theorem flat_line_zero_not_found_witness:
  "json_Unmarshal sample_env flat_bytes = Inr sample_flat \<and> Sections sample_flat = [] \<and>
   Parse sample_env sample_origin flat_bytes = Ok flat_consumer \<and>
   Source sample_env flat_consumer 0 7 = Ok not_found"
proof -
  have a: "json_Unmarshal sample_env flat_bytes = Inr sample_flat"
    by (simp add: sample_env_def bytes_defs)
  have b: "Sections sample_flat = []" by (simp add: sample_flat_def)
  show ?thesis
    using a b Parse_flat flat_line_zero_not_found [OF a b Parse_flat, of 7] by simp
qed

section \<open>Document parser\<close>

text \<open>
  Claim C5. \<open>checkVersion\<close> accepts exactly the versions 3 and 0 (absent) and answers
  every other value with the error carrying that value; version 2 gives
  \<open>UnsupportedVersion 2\<close>. The check is applied to the top-level document (a bad top-level
  version is the result of \<open>Parse\<close>) and to every section's sub-map (\<open>sourceMap.parse\<close> of a
  sub-map with a bad version fails with that error; it is the result of \<open>Parse\<close> when the
  sections before it parse; and a Consumer is only returned when the top-level version
  and the version of every section's map are 3 or 0). Construction accepts the versions
  3 and 0: \<open>sourceMap.parse\<close> of such a sub-map never fails with an unsupported version
  and succeeds when its source root and its mappings parse, and \<open>Parse\<close> of a document
  whose top-level version and section versions are all 3 or 0 never fails with an
  unsupported version.
\<close>

theorem checkVersion_applied:
  "(checkVersion version = None \<longleftrightarrow> version = 3 \<or> version = 0) \<and>
   (version \<noteq> 3 \<and> version \<noteq> 0 \<longrightarrow> checkVersion version = Some (UnsupportedVersion version)) \<and>
   checkVersion 2 = Some (UnsupportedVersion 2) \<and>
   (json_Unmarshal e b = Inr v \<and> Version (embedded v) \<noteq> 3 \<and> Version (embedded v) \<noteq> 0 \<longrightarrow>
      Parse e mapURL b = Err (UnsupportedVersion (Version (embedded v)))) \<and>
   (Version m \<noteq> 3 \<and> Version m \<noteq> 0 \<longrightarrow>
      parse e m mapURL = Inl (UnsupportedVersion (Version m))) \<and>
   (json_Unmarshal e b = Inr v \<and> (Version (embedded v) = 3 \<or> Version (embedded v) = 0) \<and>
    Sections v = pre @ s # post \<and>
    (\<forall>s' \<in> set pre. \<exists>m1 m2. Map s' = Some m1 \<and> parse e m1 mapURL = Inr m2) \<and>
    Map s = Some m \<and> Version m \<noteq> 3 \<and> Version m \<noteq> 0 \<longrightarrow>
      Parse e mapURL b = Err (UnsupportedVersion (Version m))) \<and>
   (json_Unmarshal e b = Inr v \<and> Parse e mapURL b = Ok c \<longrightarrow>
      (Version (embedded v) = 3 \<or> Version (embedded v) = 0) \<and>
      (\<forall>s' \<in> set (Sections v). \<forall>sm. Map s' = Some sm \<longrightarrow> Version sm = 3 \<or> Version sm = 0)) \<and>
   (Version m = 3 \<or> Version m = 0 \<longrightarrow> parse e m mapURL \<noteq> Inl (UnsupportedVersion x)) \<and>
   ((Version m = 3 \<or> Version m = 0) \<and> parse_root e m mapURL = Inr mr \<and>
    parseMappings e (Mappings mr) = Inr ms \<longrightarrow>
      parse e m mapURL = Inr (mr\<lparr>mappings := ms, Mappings := []\<rparr>)) \<and>
   (json_Unmarshal e b = Inr v \<and> (Version (embedded v) = 3 \<or> Version (embedded v) = 0) \<and>
    (\<forall>s' \<in> set (Sections v). \<forall>sm. Map s' = Some sm \<longrightarrow> Version sm = 3 \<or> Version sm = 0) \<longrightarrow>
      Parse e mapURL b \<noteq> Err (UnsupportedVersion x))"
proof -
  have c1: "checkVersion version = None \<longleftrightarrow> version = 3 \<or> version = 0"
    by (rule checkVersion_None_iff)
  have c2: "version \<noteq> 3 \<and> version \<noteq> 0 \<longrightarrow>
      checkVersion version = Some (UnsupportedVersion version)"
    using checkVersion_unsupported by blast
  have c3: "checkVersion 2 = Some (UnsupportedVersion 2)" by (simp add: checkVersion_def)
  have c4: "json_Unmarshal e b = Inr v \<and> Version (embedded v) \<noteq> 3 \<and> Version (embedded v) \<noteq> 0 \<longrightarrow>
      Parse e mapURL b = Err (UnsupportedVersion (Version (embedded v)))"
    using Parse_unsupported by blast
  have c5: "Version m \<noteq> 3 \<and> Version m \<noteq> 0 \<longrightarrow>
      parse e m mapURL = Inl (UnsupportedVersion (Version m))"
    using parse_unsupported by blast
  have c6: "json_Unmarshal e b = Inr v \<and> (Version (embedded v) = 3 \<or> Version (embedded v) = 0) \<and>
    Sections v = pre @ s # post \<and>
    (\<forall>s' \<in> set pre. \<exists>m1 m2. Map s' = Some m1 \<and> parse e m1 mapURL = Inr m2) \<and>
    Map s = Some m \<and> Version m \<noteq> 3 \<and> Version m \<noteq> 0 \<longrightarrow>
      Parse e mapURL b = Err (UnsupportedVersion (Version m))"
    using Parse_first_unsupported_section[of e b v pre s post mapURL m] by blast
  have c7: "json_Unmarshal e b = Inr v \<and> Parse e mapURL b = Ok c \<longrightarrow>
      (Version (embedded v) = 3 \<or> Version (embedded v) = 0) \<and>
      (\<forall>s' \<in> set (Sections v). \<forall>sm. Map s' = Some sm \<longrightarrow> Version sm = 3 \<or> Version sm = 0)"
    using Parse_Ok_versions[of e b v mapURL c] by blast
  have c8: "Version m = 3 \<or> Version m = 0 \<longrightarrow> parse e m mapURL \<noteq> Inl (UnsupportedVersion x)"
    using parse_accepts by blast
  have c9: "(Version m = 3 \<or> Version m = 0) \<and> parse_root e m mapURL = Inr mr \<and>
    parseMappings e (Mappings mr) = Inr ms \<longrightarrow>
      parse e m mapURL = Inr (mr\<lparr>mappings := ms, Mappings := []\<rparr>)"
    using parse_succeeds[of m e mapURL mr ms] by blast
  have c10: "json_Unmarshal e b = Inr v \<and> (Version (embedded v) = 3 \<or> Version (embedded v) = 0) \<and>
    (\<forall>s' \<in> set (Sections v). \<forall>sm. Map s' = Some sm \<longrightarrow> Version sm = 3 \<or> Version sm = 0) \<longrightarrow>
      Parse e mapURL b \<noteq> Err (UnsupportedVersion x)"
    using Parse_accepts[of e b v mapURL x] by blast
  show ?thesis
    by (intro conjI) (rule c1 c2 c3 c4 c5 c6 c7 c8 c9 c10)+
qed

theorem checkVersion_applied_witness:
  "Parse sample_env sample_origin version2_bytes = Err (UnsupportedVersion 2) \<and>
   Parse sample_env sample_origin indexed_version2_bytes = Err (UnsupportedVersion 2) \<and>
   parse sample_env (sample_map\<lparr>Version := 2\<rparr>) sample_origin = Inl (UnsupportedVersion 2) \<and>
   Parse sample_env sample_origin flat_bytes = Ok flat_consumer \<and>
   Version (embedded sample_flat) = 3 \<and>
   parse sample_env (sample_map\<lparr>Version := 0\<rparr>) sample_origin =
     Inr (parsed_map\<lparr>Version := 0\<rparr>) \<and>
   Parse sample_env sample_origin indexed_bytes \<noteq> Err (UnsupportedVersion 3)"
proof -
  have j1: "json_Unmarshal sample_env version2_bytes = Inr sample_version2"
    and j2: "json_Unmarshal sample_env indexed_version2_bytes = Inr sample_indexed_version2"
    and j3: "json_Unmarshal sample_env flat_bytes = Inr sample_flat"
    and j4: "json_Unmarshal sample_env indexed_bytes = Inr sample_indexed"
    by (simp_all add: sample_env_def bytes_defs)
  have v1: "Version (embedded sample_version2) = 2"
    and v2: "Version (embedded sample_indexed_version2) = 3"
    and v3: "Version (sample_map\<lparr>Version := 2\<rparr>) = 2"
    and v4: "Version (sample_map\<lparr>Version := 0\<rparr>) = 0"
    and v5: "Version (embedded sample_indexed) = 3"
    and v6: "\<forall>s' \<in> set (Sections sample_indexed). \<forall>sm. Map s' = Some sm \<longrightarrow>
               Version sm = 3 \<or> Version sm = 0"
    by (simp_all add: sample_defs sample_version2_def sample_indexed_version2_def)
  have s2: "Sections sample_indexed_version2 =
      [\<lparr>Offset = \<lparr>Line = 0, Column = 0\<rparr>, Map = Some sample_map\<rparr>] @
      \<lparr>Offset = \<lparr>Line = 5, Column = 10\<rparr>, Map = Some (sample_map\<lparr>Version := 2\<rparr>)\<rparr> # []"
    by (simp add: sample_indexed_version2_def)
  have r0: "parse_root sample_env (sample_map\<lparr>Version := 0\<rparr>) sample_origin =
      Inr (sample_map\<lparr>Version := 0,
             sourceRootURL := Some (http_url ''example.com'' ''/assets'')\<rparr>)"
    by (simp add: parse_root_def IsAbs_def sample_defs)
  have p0: "parseMappings sample_env
      (Mappings (sample_map\<lparr>Version := 0,
             sourceRootURL := Some (http_url ''example.com'' ''/assets'')\<rparr>)) =
      Inr [rec_a, rec_b, rec_c]"
    by (simp add: sample_env_def sample_map_def)
  have a: "Parse sample_env sample_origin version2_bytes = Err (UnsupportedVersion 2)"
    using checkVersion_applied [where e = sample_env and b = version2_bytes
        and v = sample_version2 and mapURL = sample_origin] j1 v1
    by simp
  have b: "Parse sample_env sample_origin indexed_version2_bytes = Err (UnsupportedVersion 2)"
    using checkVersion_applied [where e = sample_env and b = indexed_version2_bytes
        and v = sample_indexed_version2 and mapURL = sample_origin
        and pre = "[\<lparr>Offset = \<lparr>Line = 0, Column = 0\<rparr>, Map = Some sample_map\<rparr>]"
        and s = "\<lparr>Offset = \<lparr>Line = 5, Column = 10\<rparr>, Map = Some (sample_map\<lparr>Version := 2\<rparr>)\<rparr>"
        and post = "[]" and m = "sample_map\<lparr>Version := 2\<rparr>"] j2 v2 v3 s2 parse_sample_map
    by simp
  have c: "parse sample_env (sample_map\<lparr>Version := 2\<rparr>) sample_origin = Inl (UnsupportedVersion 2)"
    using checkVersion_applied [where e = sample_env and m = "sample_map\<lparr>Version := 2\<rparr>"
        and mapURL = sample_origin] v3
    by simp
  have d: "Version (embedded sample_flat) = 3"
    using checkVersion_applied [where e = sample_env and b = flat_bytes and v = sample_flat
        and mapURL = sample_origin and c = flat_consumer] j3 Parse_flat
    by (simp add: sample_defs)
  have f: "parse sample_env (sample_map\<lparr>Version := 0\<rparr>) sample_origin =
     Inr (parsed_map\<lparr>Version := 0\<rparr>)"
    using checkVersion_applied [where e = sample_env and m = "sample_map\<lparr>Version := 0\<rparr>"
        and mapURL = sample_origin
        and mr = "sample_map\<lparr>Version := 0,
             sourceRootURL := Some (http_url ''example.com'' ''/assets'')\<rparr>"
        and ms = "[rec_a, rec_b, rec_c]"] v4 r0 p0
    by (simp add: parsed_map_def sample_map_def)
  have g: "Parse sample_env sample_origin indexed_bytes \<noteq> Err (UnsupportedVersion 3)"
    using checkVersion_applied [where e = sample_env and b = indexed_bytes
        and v = sample_indexed and mapURL = sample_origin and x = 3] j4 v5 v6
    by simp
  from a b c d f g Parse_flat show ?thesis by simp
qed

text \<open>
  Claim C7 does not hold of the code. When the first section of an indexed document has
  no \<^verbatim>\<open>map\<close>, its \<open>Map\<close> pointer is \<^verbatim>\<open>nil\<close> and \<open>Parse\<close> dereferences it: the
  outcome is a panic, not a returned error.
\<close>

theorem Parse_section_without_map:
  assumes "json_Unmarshal e b = Inr v"
    and "checkVersion (Version (embedded v)) = None"
    and "Sections v = s # rest" and "Map s = None"
  shows "Parse e mapURL b = Panic NilPointerDereference"
  using assms by (simp add: Parse_def)

theorem Parse_section_without_map_witness:
  "json_Unmarshal sample_env no_map_bytes = Inr sample_no_map \<and>
   Parse sample_env sample_origin no_map_bytes =
     Panic NilPointerDereference"
proof -
  have j: "json_Unmarshal sample_env no_map_bytes = Inr sample_no_map"
    by (simp add: sample_env_def bytes_defs)
  have c: "checkVersion (Version (embedded sample_no_map)) = None"
    by (simp add: checkVersion_def sample_no_map_def bundle_top_def)
  have s: "Sections sample_no_map = \<lparr>Offset = \<lparr>Line = 0, Column = 0\<rparr>, Map = None\<rparr> # []"
    by (simp add: sample_no_map_def)
  have n: "Map \<lparr>Offset = \<lparr>Line = 0, Column = 0\<rparr>, Map = None\<rparr> = None" by simp
  show ?thesis
    using j Parse_section_without_map [OF j c s n, of sample_origin] by simp
qed

section \<open>Source root resolver\<close>

text \<open>
  Claim C6, amended. For a sub-map fresh from decoding (no resolved root yet) whose
  \<open>sourceMap.parse\<close> succeeds: a non-empty \<open>sourceRoot\<close> that is a syntactically absolute URL
  is the resolved root; a non-empty \<open>sourceRoot\<close> that is not an absolute URL leaves the
  resolved root empty, whatever the origin is; with an empty \<open>sourceRoot\<close>, a non-empty
  origin that is an absolute URL gives that URL with its path replaced by the path's
  directory; otherwise the resolved root is empty.
\<close>

theorem resolvedRoot_computed:
  assumes "parse e m mapURL = Inr m'" and "sourceRootURL m = None"
  shows "(SourceRoot m \<noteq> [] \<and> url_Parse e (SourceRoot m) = Inr u \<and> IsAbs u \<longrightarrow>
            sourceRootURL m' = Some u) \<and>
         (SourceRoot m \<noteq> [] \<and> \<not> is_abs_url e (SourceRoot m) \<longrightarrow> sourceRootURL m' = None) \<and>
         (SourceRoot m = [] \<and> mapURL \<noteq> [] \<and> url_Parse e mapURL = Inr u \<and> IsAbs u \<longrightarrow>
            sourceRootURL m' = Some (u\<lparr>Path := path_Dir e (Path u)\<rparr>)) \<and>
         (SourceRoot m = [] \<and> (mapURL = [] \<or> \<not> is_abs_url e mapURL) \<longrightarrow>
            sourceRootURL m' = None)"
proof -
  from assms(1) obtain m1 where r: "parse_root e m mapURL = Inr m1"
    and eq: "sourceRootURL m' = sourceRootURL m1"
    by (rule parse_Inr_root)
  show ?thesis
    using r assms(2) unfolding eq
    by (auto simp: parse_root_def is_abs_url_def split: if_splits sum.splits)
qed

theorem resolvedRoot_computed_witness:
  "parse sample_env sample_map sample_origin = Inr parsed_map \<and>
   sourceRootURL sample_map = None \<and> SourceRoot sample_map = [] \<and>
   sourceRootURL parsed_map = Some (http_url ''example.com'' ''/assets'')"
proof -
  have p: "parse sample_env sample_map sample_origin = Inr parsed_map"
    by (simp add: parse_def parse_root_def checkVersion_def IsAbs_def sample_defs)
  have n: "sourceRootURL sample_map = None" by (simp add: sample_map_def)
  have u: "url_Parse sample_env sample_origin = Inr (http_url ''example.com'' ''/assets/app.js.map'')"
    by (simp add: sample_env_def)
  show ?thesis
    using p n u
      resolvedRoot_computed [OF p n, where u = "http_url ''example.com'' ''/assets/app.js.map''"]
    by (simp add: IsAbs_def sample_defs)
qed

text \<open>
  Claim C6 as stated lets the origin take over whenever \<open>sourceRoot\<close> is not an absolute
  URL. With the relative source root \<^verbatim>\<open>src\<close> and an absolute origin the resolved root
  stays empty.
\<close>

theorem origin_fallback_counterexample:
  "SourceRoot rel_root_map \<noteq> [] \<and> \<not> is_abs_url sample_env (SourceRoot rel_root_map) \<and>
   is_abs_url sample_env sample_origin \<and>
   parse sample_env rel_root_map sample_origin =
     Inr (rel_root_map\<lparr>Mappings := [], mappings := [rec_a, rec_b, rec_c]\<rparr>) \<and>
   sourceRootURL (rel_root_map\<lparr>Mappings := [], mappings := [rec_a, rec_b, rec_c]\<rparr>) = None"
  by (simp add: parse_def parse_root_def checkVersion_def is_abs_url_def IsAbs_def sample_defs)

text \<open>
  Claim C8. \<open>absSource\<close> returns the name unchanged when it is an absolute path or an
  absolute URL; otherwise, with a resolved root, the root URL with the name joined onto
  its path; otherwise, with a non-empty \<open>sourceRoot\<close>, the name joined onto \<open>sourceRoot\<close>;
  otherwise the name unchanged.
\<close>

theorem absSource_cases:
  "(path_IsAbs name \<or> is_abs_url e name \<longrightarrow> absSource e m name = name) \<and>
   (\<not> path_IsAbs name \<and> \<not> is_abs_url e name \<and> sourceRootURL m = Some base \<longrightarrow>
      absSource e m name = url_String e (base\<lparr>Path := path_Join e (Path base) name\<rparr>)) \<and>
   (\<not> path_IsAbs name \<and> \<not> is_abs_url e name \<and> sourceRootURL m = None \<and>
    SourceRoot m \<noteq> [] \<longrightarrow>
      absSource e m name = path_Join e (SourceRoot m) name) \<and>
   (\<not> path_IsAbs name \<and> \<not> is_abs_url e name \<and> sourceRootURL m = None \<and>
    SourceRoot m = [] \<longrightarrow>
      absSource e m name = name)"
  by (simp add: absSource_def)

theorem absSource_cases_witness:
  "absSource sample_env parsed_map ''/lib/x.js'' = ''/lib/x.js'' \<and>
   absSource sample_env parsed_map ''http://cdn.example.com/lib.js'' =
     ''http://cdn.example.com/lib.js'' \<and>
   absSource sample_env parsed_map ''a.js'' = ''http://example.com/assets/a.js'' \<and>
   absSource sample_env rel_root_map ''a.js'' = ''src/a.js'' \<and>
   absSource sample_env sample_map ''a.js'' = ''a.js''"
proof -
  have a: "path_IsAbs ''/lib/x.js''" by (simp add: path_IsAbs_def)
  have b: "is_abs_url sample_env ''http://cdn.example.com/lib.js''"
    by (simp add: is_abs_url_def IsAbs_def sample_defs)
  have c: "\<not> path_IsAbs ''a.js''" "\<not> is_abs_url sample_env ''a.js''"
    by (simp_all add: path_IsAbs_def is_abs_url_def IsAbs_def sample_defs)
  have r: "sourceRootURL parsed_map = Some (http_url ''example.com'' ''/assets'')"
    "sourceRootURL rel_root_map = None" "SourceRoot rel_root_map \<noteq> []"
    "sourceRootURL sample_map = None" "SourceRoot sample_map = []"
    by (simp_all add: sample_defs)
  have "absSource sample_env parsed_map ''/lib/x.js'' = ''/lib/x.js''"
    using a absSource_cases [of "''/lib/x.js''" sample_env parsed_map] by simp
  moreover have "absSource sample_env parsed_map ''http://cdn.example.com/lib.js'' =
     ''http://cdn.example.com/lib.js''"
    using b absSource_cases [of "''http://cdn.example.com/lib.js''" sample_env parsed_map]
    by simp
  moreover have "absSource sample_env parsed_map ''a.js'' = ''http://example.com/assets/a.js''"
    using c r absSource_cases [of "''a.js''" sample_env parsed_map
        "http_url ''example.com'' ''/assets''"]
    by (simp add: sample_env_def http_url_def)
  moreover have "absSource sample_env rel_root_map ''a.js'' = ''src/a.js''"
    using c r absSource_cases [of "''a.js''" sample_env rel_root_map]
    by (simp add: sample_defs)
  moreover have "absSource sample_env sample_map ''a.js'' = ''a.js''"
    using c r absSource_cases [of "''a.js''" sample_env sample_map] by simp
  ultimately show ?thesis by simp
qed

section \<open>Names\<close>



end
